theory Spec2Isabelle
  imports Complex_Main "HOL-Library.Sublist" "HOL-Library.FSet"
begin

section \<open>Python strings\<close>

text \<open>
  A Python \<^verbatim>\<open>str\<close> is modelled as a \<^typ>\<open>string\<close>, one \<^typ>\<open>char\<close> per code point:
  the development covers text whose code points lie below 256. On that range
  \<^verbatim>\<open>str.isspace\<close> and the regular expression class \<^verbatim>\<open>\s\<close> hold of the twelve code points of
  \<open>isspace\<close>, and \<^verbatim>\<open>str.lower\<close> moves \<open>A..Z\<close> and the Latin-1 capitals (all but the
  multiplication sign) up by 32.
\<close>

definition isspace :: "char \<Rightarrow> bool" where
  "isspace c = (of_char c \<in> set [9, 10, 11, 12, 13, 28, 29, 30, 31, 32, 133, 160 :: nat])"

definition lower_char :: "char \<Rightarrow> char" where
  "lower_char c =
     (let n = (of_char c :: nat)
      in if (65 \<le> n \<and> n \<le> 90) \<or> (192 \<le> n \<and> n \<le> 222 \<and> n \<noteq> 215)
         then char_of (n + 32) else c)"

definition lower :: "string \<Rightarrow> string" where
  "lower s = map lower_char s"

text \<open>\<^verbatim>\<open>s.endswith(t)\<close> and \<^verbatim>\<open>t in s\<close>.\<close>

definition endswith :: "string \<Rightarrow> string \<Rightarrow> bool" where
  "endswith s t = suffix t s"

definition contains :: "string \<Rightarrow> string \<Rightarrow> bool" where
  "contains s t = sublist t s"

text \<open>
  \<^verbatim>\<open>s.replace(pat, "")\<close>: every occurrence of \<open>pat\<close>, found from the left and without
  overlap, is deleted. With an empty \<open>pat\<close> the empty replacement is inserted between the
  characters, which leaves \<open>s\<close> as it is.
\<close>

function remove_all :: "string \<Rightarrow> string \<Rightarrow> string" where
  "remove_all pat [] = []"
| "remove_all pat (c # cs) =
     (if pat \<noteq> [] \<and> prefix pat (c # cs)
      then remove_all pat (drop (length pat) (c # cs))
      else c # remove_all pat cs)"
  by pat_completeness auto
termination
  by (relation "measure (\<lambda>(pat, s). length s)") (auto simp: neq_Nil_conv)

text \<open>
  \<^verbatim>\<open>s.partition(c)\<close> at the first occurrence of the character \<open>c\<close>: the text before it and
  the text after it (empty when \<open>c\<close> does not occur).
\<close>

definition before :: "char \<Rightarrow> string \<Rightarrow> string" where
  "before c s = takeWhile (\<lambda>x. x \<noteq> c) s"

definition after :: "char \<Rightarrow> string \<Rightarrow> string" where
  "after c s = drop 1 (dropWhile (\<lambda>x. x \<noteq> c) s)"

section \<open>The URL parser of the standard library\<close>

text \<open>
  \<^verbatim>\<open>urllib.parse\<close> of CPython 3.11, on \<^verbatim>\<open>str\<close> arguments with the default
  \<^verbatim>\<open>scheme=''\<close> and \<^verbatim>\<open>allow_fragments=True\<close>. A \<^verbatim>\<open>ValueError\<close> is the only exception
  it raises. The validation of a bracketed host (\<^verbatim>\<open>_check_bracketed_host\<close>, which asks
  the \<^verbatim>\<open>ipaddress\<close> module) is a parameter \<open>chk\<close>: \<open>chk h\<close> holds when the check returns
  without raising. \<^verbatim>\<open>_checknetloc\<close> raises only when NFKC normalisation of a non-ASCII
  host produces one of \<^verbatim>\<open>/?#@:\<close>, which no code point below 256 does.
\<close>

datatype error = ValueError

record ParseResult =
  scheme :: string
  netloc :: string
  path :: string
  params :: string
  query :: string
  fragment :: string

definition uses_netloc :: "string list" where
  "uses_netloc = ['''', ''ftp'', ''http'', ''gopher'', ''nntp'', ''telnet'',
     ''imap'', ''wais'', ''file'', ''mms'', ''https'', ''shttp'',
     ''snews'', ''prospero'', ''rtsp'', ''rtsps'', ''rtspu'', ''rsync'',
     ''svn'', ''svn+ssh'', ''sftp'', ''nfs'', ''git'', ''git+ssh'',
     ''ws'', ''wss'']"

definition uses_params :: "string list" where
  "uses_params = ['''', ''ftp'', ''hdl'', ''prospero'', ''http'', ''imap'',
     ''https'', ''shttp'', ''rtsp'', ''rtsps'', ''rtspu'', ''sip'',
     ''sips'', ''mms'', ''sftp'', ''tel'']"

definition scheme_chars :: string where
  "scheme_chars =
     ''abcdefghijklmnopqrstuvwxyz'' @ ''ABCDEFGHIJKLMNOPQRSTUVWXYZ'' @ ''0123456789'' @ ''+-.''"

definition ascii_alpha :: "char \<Rightarrow> bool" where
  "ascii_alpha c =
     (let n = (of_char c :: nat) in (65 \<le> n \<and> n \<le> 90) \<or> (97 \<le> n \<and> n \<le> 122))"

text \<open>\<^verbatim>\<open>url.lstrip(_WHATWG_C0_CONTROL_OR_SPACE)\<close>, then the removal of tab, CR and LF.\<close>

definition lstrip_c0 :: "string \<Rightarrow> string" where
  "lstrip_c0 url = dropWhile (\<lambda>c. (of_char c :: nat) \<le> 32) url"

definition remove_unsafe :: "string \<Rightarrow> string" where
  "remove_unsafe url = filter (\<lambda>c. (of_char c :: nat) \<notin> set [9, 13, 10]) url"

text \<open>
  The scheme: \<^verbatim>\<open>i = url.find(':')\<close>, and when \<^verbatim>\<open>i > 0\<close>, the first character is an ASCII
  letter and all of \<^verbatim>\<open>url[:i]\<close> are scheme characters, the pair
  \<^verbatim>\<open>(url[:i].lower(), url[i+1:])\<close>; otherwise the default scheme \<^verbatim>\<open>''\<close> and the text as
  it is.
\<close>

definition split_scheme :: "string \<Rightarrow> string \<times> string" where
  "split_scheme url =
     (if CHR '':'' \<in> set url \<and> before CHR '':'' url \<noteq> []
         \<and> ascii_alpha (hd url)
         \<and> list_all (\<lambda>c. c \<in> set scheme_chars) (before CHR '':'' url)
      then (lower (before CHR '':'' url), after CHR '':'' url)
      else ('''', url))"

text \<open>\<^verbatim>\<open>_splitnetloc(url, 2)\<close>: the text from index 2 up to the first of \<^verbatim>\<open>/?#\<close>, and the rest.\<close>

definition netloc_char :: "char \<Rightarrow> bool" where
  "netloc_char c = (c \<notin> set ''/?#'')"

definition splitnetloc :: "string \<Rightarrow> string \<times> string" where
  "splitnetloc url = (takeWhile netloc_char (drop 2 url), dropWhile netloc_char (drop 2 url))"

definition split_netloc_part :: "string \<Rightarrow> string \<times> string" where
  "split_netloc_part url = (if take 2 url = ''//'' then splitnetloc url else ('''', url))"

text \<open>
  The two checks of a bracketed host, made when the URL has a network location: a
  \<^verbatim>\<open>[\<close> without \<^verbatim>\<open>]\<close> or the reverse, and a bracketed host
  (\<^verbatim>\<open>netloc.partition('[')[2].partition(']')[0]\<close>) that fails validation. Without a
  network location the host is empty and neither check fires.
\<close>

definition netloc_invalid :: "(string \<Rightarrow> bool) \<Rightarrow> string \<Rightarrow> bool" where
  "netloc_invalid chk nl =
     ((CHR ''['' \<in> set nl \<and> CHR '']'' \<notin> set nl)
      \<or> (CHR '']'' \<in> set nl \<and> CHR ''['' \<notin> set nl)
      \<or> (CHR ''['' \<in> set nl \<and> CHR '']'' \<in> set nl
          \<and> \<not> chk (before CHR '']'' (after CHR ''['' nl))))"

definition split_fragment :: "string \<Rightarrow> string \<times> string" where
  "split_fragment url =
     (if CHR ''#'' \<in> set url then (before CHR ''#'' url, after CHR ''#'' url) else (url, ''''))"

definition split_query :: "string \<Rightarrow> string \<times> string" where
  "split_query url =
     (if CHR ''?'' \<in> set url then (before CHR ''?'' url, after CHR ''?'' url) else (url, ''''))"

definition urlsplit :: "(string \<Rightarrow> bool) \<Rightarrow> string \<Rightarrow> error + ParseResult" where
  "urlsplit chk url0 =
     (let (sch, url1) = split_scheme (remove_unsafe (lstrip_c0 url0));
          (nl, url2) = split_netloc_part url1
      in if netloc_invalid chk nl then Inl ValueError
         else
           (let (url3, frag) = split_fragment url2;
                (url4, qry) = split_query url3
            in Inr \<lparr>scheme = sch, netloc = nl, path = url4, params = '''',
                      query = qry, fragment = frag\<rparr>))"

text \<open>
  \<^verbatim>\<open>_splitparams\<close>: the parameters are what follows the first \<^verbatim>\<open>;\<close> of the last path
  segment. \<open>last_segment\<close> is the text after the last \<^verbatim>\<open>/\<close>. Without any \<^verbatim>\<open>/\<close> and
  without any \<^verbatim>\<open>;\<close>, \<^verbatim>\<open>find\<close> gives -1 and the slices are \<^verbatim>\<open>url[:-1]\<close> and \<^verbatim>\<open>url[0:]\<close>.
\<close>

definition last_segment :: "string \<Rightarrow> string" where
  "last_segment url = rev (takeWhile (\<lambda>c. c \<noteq> CHR ''/'') (rev url))"

definition splitparams :: "string \<Rightarrow> string \<times> string" where
  "splitparams url =
     (if CHR ''/'' \<in> set url then
        (if CHR '';'' \<in> set (last_segment url)
         then (take (length url - length (last_segment url)) url
                 @ before CHR '';'' (last_segment url),
               after CHR '';'' (last_segment url))
         else (url, ''''))
      else if CHR '';'' \<in> set url then (before CHR '';'' url, after CHR '';'' url)
      else (butlast url, url))"

definition urlparse :: "(string \<Rightarrow> bool) \<Rightarrow> string \<Rightarrow> error + ParseResult" where
  "urlparse chk url =
     (case urlsplit chk url of
        Inl e \<Rightarrow> Inl e
      | Inr r \<Rightarrow>
          if scheme r \<in> set uses_params \<and> CHR '';'' \<in> set (path r)
          then Inr (r\<lparr>path := fst (splitparams (path r)), params := snd (splitparams (path r))\<rparr>)
          else Inr r)"

definition urlunsplit :: "string \<Rightarrow> string \<Rightarrow> string \<Rightarrow> string \<Rightarrow> string \<Rightarrow> string" where
  "urlunsplit sch nl url qry frag =
     (let url1 = (if nl \<noteq> [] \<or> (sch \<noteq> [] \<and> sch \<in> set uses_netloc) \<or> take 2 url = ''//''
                  then ''//'' @ nl @ (if url \<noteq> [] \<and> take 1 url \<noteq> ''/'' then ''/'' @ url else url)
                  else url);
          url2 = (if sch \<noteq> [] then sch @ '':'' @ url1 else url1);
          url3 = (if qry \<noteq> [] then url2 @ ''?'' @ qry else url2)
      in if frag \<noteq> [] then url3 @ ''#'' @ frag else url3)"

definition urlunparse :: "ParseResult \<Rightarrow> string" where
  "urlunparse r =
     urlunsplit (scheme r) (netloc r)
       (if params r \<noteq> [] then path r @ '';'' @ params r else path r)
       (query r) (fragment r)"

text \<open>
  The \<^verbatim>\<open>hostname\<close> property of a parse result: the network location without the user
  information before the last \<^verbatim>\<open>@\<close> and without the port, \<open>None\<close> when nothing is left.
  A bracketed host is what stands between the brackets; the part before a \<^verbatim>\<open>%\<close> is
  lower-cased.
\<close>

definition hostinfo :: "string \<Rightarrow> string" where
  "hostinfo nl = rev (takeWhile (\<lambda>c. c \<noteq> CHR ''@'') (rev nl))"

definition hostname :: "ParseResult \<Rightarrow> string option" where
  "hostname r =
     (let hi = hostinfo (netloc r);
          h = (if CHR ''['' \<in> set hi then before CHR '']'' (after CHR ''['' hi)
               else before CHR '':'' hi)
      in if h = [] then None
         else Some (lower (before CHR ''%'' h)
                    @ (if CHR ''%'' \<in> set h then CHR ''%'' # after CHR ''%'' h else [])))"

section \<open>The URL normaliser and the domain test\<close>

definition SKIP_EXTENSIONS :: "string list" where
  "SKIP_EXTENSIONS =
     [''.pdf'', ''.jpg'', ''.jpeg'', ''.png'', ''.gif'', ''.webp'', ''.svg'',
      ''.zip'', ''.rar'', ''.7z'', ''.mp4'', ''.webm'', ''.mp3'', ''.avi'',
      ''.doc'', ''.docx'', ''.xls'', ''.xlsx'', ''.ppt'', ''.pptx'']"

text \<open>\<open>clean_url\<close> returns the empty string for a rejected URL, as the source does.\<close>

definition clean_url :: "(string \<Rightarrow> bool) \<Rightarrow> string \<Rightarrow> error + string" where
  "clean_url chk url =
     (case urlparse chk url of
        Inl e \<Rightarrow> Inl e
      | Inr parsed \<Rightarrow>
          if scheme parsed = [] \<or> netloc parsed = [] then Inr ''''
          else if scheme parsed \<notin> set [''http'', ''https''] then Inr ''''
          else if list_ex (\<lambda>ext. endswith (lower (path parsed)) ext) SKIP_EXTENSIONS then Inr ''''
          else Inr (urlunparse (parsed\<lparr>fragment := ''''\<rparr>)))"

definition same_domain :: "(string \<Rightarrow> bool) \<Rightarrow> string \<Rightarrow> string \<Rightarrow> error + bool" where
  "same_domain chk url base_domain =
     (case urlparse chk url of
        Inl e \<Rightarrow> Inl e
      | Inr parsed \<Rightarrow>
          Inr (lower (netloc parsed) = base_domain
               \<or> endswith (lower (netloc parsed)) (''.'' @ base_domain)))"

text \<open>The base domain of a crawl, as \<open>crawl_site\<close> computes it from the base URL.\<close>

definition base_domain_of :: "(string \<Rightarrow> bool) \<Rightarrow> string \<Rightarrow> error + string" where
  "base_domain_of chk base_url =
     (case urlparse chk base_url of
        Inl e \<Rightarrow> Inl e
      | Inr parsed \<Rightarrow> Inr (lower (remove_all ''www.'' (netloc parsed))))"

text \<open>A validation that accepts every bracketed host, for the concrete runs below.\<close>

definition any_host :: "string \<Rightarrow> bool" where
  "any_host h = True"

section \<open>The parsed document\<close>

text \<open>
  The tree that \<^verbatim>\<open>BeautifulSoup(resp.text, "html.parser")\<close> builds: text nodes, and tags with
  a name, a dictionary of attributes (an association list read with \<open>map_of\<close>) and
  children. Comments and declarations, which \<^verbatim>\<open>get_text\<close> passes over, are left out. A
  document is the list of its top-level nodes.
\<close>

datatype node = Text string | Tag string "(string \<times> string) list" "node list"

definition named :: "string list \<Rightarrow> node \<Rightarrow> bool" where
  "named ns n = (case n of Text t \<Rightarrow> False | Tag m as cs \<Rightarrow> m \<in> set ns)"

definition get_attr :: "node \<Rightarrow> string \<Rightarrow> string option" where
  "get_attr n k = (case n of Text t \<Rightarrow> None | Tag m as cs \<Rightarrow> map_of as k)"

text \<open>All tags of a tree, in document order: what \<^verbatim>\<open>find_all\<close> searches.\<close>

fun tags :: "node \<Rightarrow> node list" and tags_list :: "node list \<Rightarrow> node list" where
  "tags (Text t) = []"
| "tags (Tag m as cs) = Tag m as cs # tags_list cs"
| "tags_list [] = []"
| "tags_list (c # cs) = tags c @ tags_list cs"

definition find_all :: "(node \<Rightarrow> bool) \<Rightarrow> node list \<Rightarrow> node list" where
  "find_all P soup = filter P (tags_list soup)"

definition find_first :: "(node \<Rightarrow> bool) \<Rightarrow> node list \<Rightarrow> node option" where
  "find_first P soup = (case find_all P soup of [] \<Rightarrow> None | t # ts \<Rightarrow> Some t)"

text \<open>\<^verbatim>\<open>tag.get_text(sep)\<close>: the text nodes below the tag, in document order, joined by \<open>sep\<close>.\<close>

fun strings :: "node \<Rightarrow> string list" and strings_list :: "node list \<Rightarrow> string list" where
  "strings (Text t) = [t]"
| "strings (Tag m as cs) = strings_list cs"
| "strings_list [] = []"
| "strings_list (c # cs) = strings c @ strings_list cs"

fun join :: "string \<Rightarrow> string list \<Rightarrow> string" where
  "join sep [] = []"
| "join sep [x] = x"
| "join sep (x # y # ys) = x @ sep @ join sep (y # ys)"

definition get_text :: "string \<Rightarrow> node \<Rightarrow> string" where
  "get_text sep n = join sep (strings n)"

text \<open>
  \<^verbatim>\<open>for tag in soup(names): tag.decompose()\<close>: every tag with one of the names is taken
  out of the tree, with all below it.
\<close>

fun decompose :: "string list \<Rightarrow> node \<Rightarrow> node list"
  and decompose_list :: "string list \<Rightarrow> node list \<Rightarrow> node list" where
  "decompose ns (Text t) = [Text t]"
| "decompose ns (Tag m as cs) = (if m \<in> set ns then [] else [Tag m as (decompose_list ns cs)])"
| "decompose_list ns [] = []"
| "decompose_list ns (c # cs) = decompose ns c @ decompose_list ns cs"

section \<open>The content extractor\<close>

text \<open>
  \<open>normalize_text\<close>: \<^verbatim>\<open>re.sub(r"\s+", " ", text).strip()\<close>. Every run of whitespace becomes
  one space, then the whitespace at both ends is removed.
\<close>

function collapse_ws :: "string \<Rightarrow> string" where
  "collapse_ws [] = []"
| "collapse_ws (c # cs) =
     (if isspace c then CHR '' '' # collapse_ws (dropWhile isspace cs) else c # collapse_ws cs)"
  by pat_completeness auto
termination
  by (relation "measure length") (auto simp: le_imp_less_Suc length_dropWhile_le)

definition strip :: "string \<Rightarrow> string" where
  "strip s = rev (dropWhile isspace (rev (dropWhile isspace s)))"

definition normalize_text :: "string \<Rightarrow> string" where
  "normalize_text s = strip (collapse_ws s)"

record ExtractedContent =
  title :: string
  meta_description :: string
  h1 :: string
  content_snippet :: string
  content_length :: int
  score :: int

definition BOILERPLATE :: "string list" where
  "BOILERPLATE = [''script'', ''style'', ''nav'', ''footer'', ''header'', ''aside'', ''noscript'']"

text \<open>
  \<^verbatim>\<open>meta and meta.get("content")\<close>: the \<^verbatim>\<open>content\<close> attribute of a tag that was found, when the
  attribute is there and not empty.
\<close>

definition truthy_content :: "node option \<Rightarrow> string option" where
  "truthy_content found =
     (case found of
        None \<Rightarrow> None
      | Some m \<Rightarrow> (case get_attr m ''content'' of
                    None \<Rightarrow> None
                  | Some c \<Rightarrow> if c = [] then None else Some c))"

definition is_meta_description :: "node \<Rightarrow> bool" where
  "is_meta_description t = (named [''meta''] t \<and> get_attr t ''name'' = Some ''description'')"

definition is_og_description :: "node \<Rightarrow> bool" where
  "is_og_description t = (named [''meta''] t \<and> get_attr t ''property'' = Some ''og:description'')"

text \<open>
  \<^verbatim>\<open>soup.find("main") or soup.find("article") or soup.body\<close>: a tag that was found is true
  whatever it holds.
\<close>

definition main_region :: "node list \<Rightarrow> node option" where
  "main_region soup =
     (case find_first (named [''main'']) soup of
        Some m \<Rightarrow> Some m
      | None \<Rightarrow> (case find_first (named [''article'']) soup of
                   Some a \<Rightarrow> Some a
                 | None \<Rightarrow> find_first (named [''body'']) soup))"

definition h_count :: "node list \<Rightarrow> int" where
  "h_count soup = int (length (find_all (named [''h1'', ''h2'', ''h3'']) soup))"

text \<open>
  \<open>extract_content\<close> changes the document it is given (the boilerplate is taken out) and
  returns the dictionary: the model returns both, the dictionary and the document as it is
  left.
\<close>

definition extract_content :: "node list \<Rightarrow> ExtractedContent \<times> node list" where
  "extract_content soup0 =
     (let soup = decompose_list BOILERPLATE soup0;
          ttl = (case find_first (named [''title'']) soup of
                   Some t \<Rightarrow> normalize_text (get_text '''' t) | None \<Rightarrow> '''');
          meta_desc =
            (case truthy_content (find_first is_meta_description soup) of
               Some c \<Rightarrow> normalize_text c
             | None \<Rightarrow> (case truthy_content (find_first is_og_description soup) of
                          Some c \<Rightarrow> normalize_text c
                        | None \<Rightarrow> ''''));
          h1_text = (case find_first (named [''h1'']) soup of
                       Some t \<Rightarrow> normalize_text (get_text '''' t) | None \<Rightarrow> '''');
          content_text = (case main_region soup of
                            Some m \<Rightarrow> normalize_text (get_text '' '' m) | None \<Rightarrow> '''');
          len = int (length content_text);
          sc = len + (h_count soup * 80) + (int (length meta_desc) * 2);
          snippet = take 240 content_text @ (if length content_text > 240 then ''...'' else '''')
      in (\<lparr>title = ttl, meta_description = meta_desc, h1 = h1_text,
            content_snippet = snippet, content_length = len, score = sc\<rparr>, soup))"

section \<open>The robots.txt parser of the standard library\<close>

text \<open>
  \<^verbatim>\<open>urllib.robotparser.RobotFileParser\<close> of CPython 3.11: the fields that \<^verbatim>\<open>can_fetch\<close> reads.
  An entry of a parsed file holds its user agents and its rule lines (path, allowance).
\<close>

datatype entry = Entry "string list" "(string \<times> bool) list"

record RobotFileParser =
  entries :: "entry list"
  default_entry :: "entry option"
  disallow_all :: bool
  allow_all :: bool
  last_checked :: real

text \<open>The parser as \<^verbatim>\<open>__init__\<close> leaves it.\<close>

definition new_parser :: RobotFileParser where
  "new_parser = \<lparr>entries = [], default_entry = None, disallow_all = False,
                  allow_all = False, last_checked = 0\<rparr>"

text \<open>
  What \<^verbatim>\<open>urlopen\<close> of the robots.txt URL does inside \<^verbatim>\<open>read\<close>: it raises an error of the
  transport (\<^verbatim>\<open>URLError\<close>, a timeout; a file that cannot be decoded goes the same way),
  it raises \<^verbatim>\<open>HTTPError\<close> with a status code, or it returns the file, which \<^verbatim>\<open>parse\<close>
  turns into entries after \<^verbatim>\<open>modified\<close> has set \<^verbatim>\<open>last_checked\<close> to the time of the clock.
\<close>

datatype robots_response =
  TransportError
| HTTPError int
| RobotsFile "entry list" "entry option" real

text \<open>
  \<^verbatim>\<open>read\<close>: \<open>None\<close> when the exception leaves \<^verbatim>\<open>read\<close> (only \<^verbatim>\<open>HTTPError\<close> is caught there),
  with the parser untouched.
\<close>

definition read :: "robots_response \<Rightarrow> RobotFileParser \<Rightarrow> RobotFileParser option" where
  "read resp rp =
     (case resp of
        TransportError \<Rightarrow> None
      | HTTPError code \<Rightarrow>
          Some (if code \<in> {401, 403} then rp\<lparr>disallow_all := True\<rparr>
                else if 400 \<le> code \<and> code < 500 then rp\<lparr>allow_all := True\<rparr>
                else rp)
      | RobotsFile es d now \<Rightarrow> Some (rp\<lparr>entries := es, default_entry := d, last_checked := now\<rparr>))"

section \<open>The world outside the crawler\<close>

text \<open>
  The outcome of \<^verbatim>\<open>session.get(url, timeout=15)\<close>: a \<^verbatim>\<open>requests.RequestException\<close> (timeout,
  connection error), or a response with its status code, its \<^verbatim>\<open>Content-Type\<close> header when
  it has one, and its body as the HTML parser reads it.
\<close>

datatype fetch_result =
  RequestException
| Response int "string option" "node list"

text \<open>
  The library functions and the network that the crawler calls. \<open>match_entries\<close> is the
  search of \<^verbatim>\<open>can_fetch\<close> through the entries of a parsed robots.txt (it parses the URL and
  may raise); \<open>urljoin\<close> is \<^verbatim>\<open>urllib.parse.urljoin\<close>. A crawl asks for each URL at most once,
  so the answers of the network are a function of the URL.
\<close>

record env =
  check_bracketed_host :: "string \<Rightarrow> bool"
  urljoin :: "string \<Rightarrow> string \<Rightarrow> error + string"
  urlopen :: "string \<Rightarrow> robots_response"
  match_entries :: "entry list \<Rightarrow> entry option \<Rightarrow> string \<Rightarrow> string \<Rightarrow> error + bool"
  session_get :: "string \<Rightarrow> fetch_result"

definition can_fetch :: "env \<Rightarrow> RobotFileParser \<Rightarrow> string \<Rightarrow> string \<Rightarrow> error + bool" where
  "can_fetch e rp useragent u =
     (if disallow_all rp then Inr False
      else if allow_all rp then Inr True
      else if last_checked rp = 0 then Inr False
      else match_entries e (entries rp) (default_entry rp) useragent u)"

section \<open>The crawler\<close>

text \<open>
  \<open>build_robot_parser\<close>: \<^verbatim>\<open>set_url\<close> parses the robots.txt URL and \<^verbatim>\<open>read\<close> fetches it; whatever
  either raises is caught and the parser is returned as it is. Only the parse of the base
  URL stands outside the \<^verbatim>\<open>try\<close>.
\<close>

definition build_robot_parser :: "env \<Rightarrow> string \<Rightarrow> error + RobotFileParser" where
  "build_robot_parser e base_url =
     (case urlparse (check_bracketed_host e) base_url of
        Inl err \<Rightarrow> Inl err
      | Inr parsed \<Rightarrow>
          (let robots_url = scheme parsed @ ''://'' @ netloc parsed @ ''/robots.txt'';
               rp = new_parser
           in case urlparse (check_bracketed_host e) robots_url of
                Inl err \<Rightarrow> Inr rp
              | Inr p \<Rightarrow> (case read (urlopen e robots_url) rp of
                            None \<Rightarrow> Inr rp
                          | Some rp' \<Rightarrow> Inr rp')))"

record PageRecord = ExtractedContent +
  url :: string

text \<open>The calls that reach the world, in the order the crawler makes them.\<close>

datatype event = Fetch string | Sleep real

record crawl_state =
  visited :: "string fset"
  queue :: "string list"
  results :: "PageRecord list"
  trace :: "event list"

text \<open>
  The loop over the anchors of a page: each \<^verbatim>\<open>href\<close> is joined to the page's URL and
  cleaned; a rejected link and a link outside the base domain are skipped; a link not yet
  visited is appended to the queue. A \<^verbatim>\<open>ValueError\<close> leaves the loop.
\<close>

fun enqueue_links ::
  "env \<Rightarrow> string \<Rightarrow> string fset \<Rightarrow> string \<Rightarrow> string list \<Rightarrow> string list \<Rightarrow> error + string list"
where
  "enqueue_links e base_domain vis u [] q = Inr q"
| "enqueue_links e base_domain vis u (a # as) q =
     (case urljoin e u a of
        Inl err \<Rightarrow> Inl err
      | Inr joined \<Rightarrow>
          (case clean_url (check_bracketed_host e) joined of
             Inl err \<Rightarrow> Inl err
           | Inr href \<Rightarrow>
               if href = [] then enqueue_links e base_domain vis u as q
               else (case same_domain (check_bracketed_host e) href base_domain of
                       Inl err \<Rightarrow> Inl err
                     | Inr same \<Rightarrow>
                         if \<not> same then enqueue_links e base_domain vis u as q
                         else if href |\<notin>| vis
                         then enqueue_links e base_domain vis u as (q @ [href])
                         else enqueue_links e base_domain vis u as q)))"

text \<open>\<^verbatim>\<open>soup.find_all("a", href=True)\<close>, and the \<^verbatim>\<open>href\<close> of each.\<close>

definition anchors :: "node list \<Rightarrow> string list" where
  "anchors soup =
     concat (map (\<lambda>t. case get_attr t ''href'' of None \<Rightarrow> [] | Some h \<Rightarrow> [h])
                 (find_all (named [''a'']) soup))"

text \<open>
  One pass through the body of the \<^verbatim>\<open>while\<close> loop, from a state whose queue is not empty.
  \<open>Inl\<close> is an exception that leaves \<open>crawl_site\<close>.
\<close>

definition crawl_step ::
  "env \<Rightarrow> RobotFileParser \<Rightarrow> string \<Rightarrow> real \<Rightarrow> crawl_state \<Rightarrow> error + crawl_state" where
  "crawl_step e rp base_domain delay st =
     (let st1 = st\<lparr>queue := tl (queue st)\<rparr> in
      case clean_url (check_bracketed_host e) (hd (queue st)) of
        Inl err \<Rightarrow> Inl err
      | Inr u \<Rightarrow>
          if u = [] \<or> u |\<in>| visited st then Inr st1
          else (case can_fetch e rp ''*'' u of
                  Inl err \<Rightarrow> Inl err
                | Inr allowed \<Rightarrow>
                    if \<not> allowed then Inr (st1\<lparr>visited := finsert u (visited st)\<rparr>)
                    else (case session_get e u of
                            RequestException \<Rightarrow>
                              Inr (st1\<lparr>visited := finsert u (visited st),
                                       trace := trace st @ [Fetch u]\<rparr>)
                          | Response status_code content_type soup0 \<Rightarrow>
                              if status_code \<noteq> 200
                              then Inr (st1\<lparr>visited := finsert u (visited st),
                                            trace := trace st @ [Fetch u]\<rparr>)
                              else if \<not> contains (case content_type of None \<Rightarrow> '''' | Some c \<Rightarrow> c)
                                            ''text/html''
                              then Inr (st1\<lparr>visited := finsert u (visited st),
                                            trace := trace st @ [Fetch u]\<rparr>)
                              else (let (data, soup) = extract_content soup0;
                                        row = ExtractedContent.extend data \<lparr>url = u\<rparr>
                                    in case enqueue_links e base_domain (visited st) u
                                              (anchors soup) (tl (queue st)) of
                                         Inl err \<Rightarrow> Inl err
                                       | Inr q \<Rightarrow>
                                           Inr \<lparr>visited = finsert u (visited st),
                                                queue = q,
                                                results = results st @ [row],
                                                trace = trace st @ [Fetch u, Sleep delay]\<rparr>))))"

definition loop_guard :: "int \<Rightarrow> crawl_state \<Rightarrow> bool" where
  "loop_guard max_pages st = (queue st \<noteq> [] \<and> int (fcard (visited st)) < max_pages)"

text \<open>
  Each pass either leaves the visited set as it is and takes the head off the queue, or adds
  a URL that was not yet visited: this is why the loop ends.
\<close>

lemma crawl_step_progress:
  assumes "crawl_step e rp bd delay st = Inr st'"
  shows "(visited st' = visited st \<and> queue st' = tl (queue st))
         \<or> (\<exists>u. u |\<notin>| visited st \<and> visited st' = finsert u (visited st))"
  using assms unfolding crawl_step_def
  by (auto simp: Let_def split: sum.splits if_splits fetch_result.splits prod.splits)

text \<open>
  \<^verbatim>\<open>while queue and len(visited) < max_pages\<close>.
\<close>

function crawl_loop ::
  "env \<Rightarrow> RobotFileParser \<Rightarrow> string \<Rightarrow> int \<Rightarrow> real \<Rightarrow> crawl_state \<Rightarrow> error + crawl_state" where
  "crawl_loop e rp base_domain max_pages delay st =
     (if loop_guard max_pages st
      then (case crawl_step e rp base_domain delay st of
              Inl err \<Rightarrow> Inl err
            | Inr st' \<Rightarrow> crawl_loop e rp base_domain max_pages delay st')
      else Inr st)"
  by pat_completeness auto
termination
proof (relation "measures [\<lambda>(e, rp, bd, mp, delay, st). nat (mp - int (fcard (visited st))),
                           \<lambda>(e, rp, bd, mp, delay, st). length (queue st)]", goal_cases)
  case 1
  show ?case by simp
next
  case (2 e rp bd mp delay st st')
  from crawl_step_progress[OF 2(2)] show ?case
  proof
    assume "visited st' = visited st \<and> queue st' = tl (queue st)"
    with 2(1) show ?thesis by (auto simp: loop_guard_def)
  next
    assume "\<exists>u. u |\<notin>| visited st \<and> visited st' = finsert u (visited st)"
    then obtain u where "u |\<notin>| visited st" "visited st' = finsert u (visited st)" by blast
    then have "fcard (visited st') = Suc (fcard (visited st))" by (simp add: fcard_finsert_disjoint)
    with 2(1) show ?thesis by (auto simp: loop_guard_def)
  qed
qed

declare crawl_loop.simps [simp del]

definition initial_state :: "string \<Rightarrow> crawl_state" where
  "initial_state base_url = \<lparr>visited = {||}, queue = [base_url], results = [], trace = []\<rparr>"

text \<open>
  \<open>crawl_run\<close> is \<open>crawl_site\<close> up to the end of its loop, with the whole final state;
  \<open>crawl_site\<close> returns the results of that state.
\<close>

definition crawl_run :: "env \<Rightarrow> string \<Rightarrow> int \<Rightarrow> real \<Rightarrow> error + crawl_state" where
  "crawl_run e base_url max_pages delay =
     (case base_domain_of (check_bracketed_host e) base_url of
        Inl err \<Rightarrow> Inl err
      | Inr base_domain \<Rightarrow>
          (case build_robot_parser e base_url of
             Inl err \<Rightarrow> Inl err
           | Inr rp \<Rightarrow> crawl_loop e rp base_domain max_pages delay (initial_state base_url)))"

definition crawl_site :: "env \<Rightarrow> string \<Rightarrow> int \<Rightarrow> real \<Rightarrow> error + PageRecord list" where
  "crawl_site e base_url max_pages delay =
     (case crawl_run e base_url max_pages delay of
        Inl err \<Rightarrow> Inl err
      | Inr st \<Rightarrow> Inr (results st))"

text \<open>
  The state at the iteration boundaries: \<open>after_passes n\<close> is the state after \<open>n\<close> passes
  through the loop, or the final state when the loop ends earlier.
\<close>

fun after_passes ::
  "env \<Rightarrow> RobotFileParser \<Rightarrow> string \<Rightarrow> int \<Rightarrow> real \<Rightarrow> nat \<Rightarrow> crawl_state
     \<Rightarrow> error + crawl_state" where
  "after_passes e rp base_domain max_pages delay 0 st = Inr st"
| "after_passes e rp base_domain max_pages delay (Suc n) st =
     (if loop_guard max_pages st
      then (case crawl_step e rp base_domain delay st of
              Inl err \<Rightarrow> Inl err
            | Inr st' \<Rightarrow> after_passes e rp base_domain max_pages delay n st')
      else Inr st)"

section \<open>A small site, for the concrete runs\<close>

text \<open>
  The site \<^verbatim>\<open>http://site.test/\<close>: its home page links to \<^verbatim>\<open>/a\<close>, \<^verbatim>\<open>/b\<close> and \<^verbatim>\<open>/logo.png\<close>;
  \<^verbatim>\<open>/a\<close> answers 404 and \<^verbatim>\<open>/b\<close> is a page without links. Its robots.txt answers 404, which
  allows everything. \<open>site_join\<close> joins the absolute paths that the site uses.
\<close>

definition home_page :: "node list" where
  "home_page =
     [Tag ''html'' []
       [Tag ''head'' [] [Tag ''title'' [] [Text ''Home'']],
        Tag ''body'' []
          [Tag ''h1'' [] [Text ''Welcome''],
           Tag ''a'' [(''href'', ''/a'')] [Text ''A''],
           Tag ''a'' [(''href'', ''/b'')] [Text ''B''],
           Tag ''a'' [(''href'', ''/logo.png'')] [Text ''logo'']]]]"

definition page_b :: "node list" where
  "page_b = [Tag ''html'' [] [Tag ''body'' [] [Text ''B'']]]"

definition site_join :: "string \<Rightarrow> string \<Rightarrow> error + string" where
  "site_join base href = Inr (''http://site.test'' @ href)"

definition site_get :: "string \<Rightarrow> fetch_result" where
  "site_get u =
     (if u = ''http://site.test/'' then Response 200 (Some ''text/html; charset=utf-8'') home_page
      else if u = ''http://site.test/b'' then Response 200 (Some ''text/html'') page_b
      else Response 404 (Some ''text/html'') [])"

definition no_rules :: "entry list \<Rightarrow> entry option \<Rightarrow> string \<Rightarrow> string \<Rightarrow> error + bool" where
  "no_rules es d useragent u = Inr True"

definition robots_404 :: "string \<Rightarrow> robots_response" where
  "robots_404 u = HTTPError 404"

definition robots_down :: "string \<Rightarrow> robots_response" where
  "robots_down u = TransportError"

definition site :: env where
  "site = \<lparr>check_bracketed_host = any_host, urljoin = site_join, urlopen = robots_404,
            match_entries = no_rules, session_get = site_get\<rparr>"

text \<open>The same site with its robots.txt out of reach.\<close>

definition site_robots_down :: env where
  "site_robots_down = site\<lparr>urlopen := robots_down\<rparr>"

text \<open>
  A page with three headings, a body text of 500 characters and a description of 50, and a
  page whose description tag has an empty \<^verbatim>\<open>content\<close>.
\<close>

definition rich_page :: "node list" where
  "rich_page =
     [Tag ''html'' []
       [Tag ''head'' []
          [Tag ''meta'' [(''name'', ''description''), (''content'', replicate 50 CHR ''m'')] []],
        Tag ''body'' []
          [Tag ''h1'' [] [Text ''a''], Tag ''h2'' [] [Text ''b''], Tag ''h3'' [] [Text ''c''],
           Text (replicate 494 CHR ''x'')]]]"

definition empty_meta_page :: "node list" where
  "empty_meta_page =
     [Tag ''html'' []
       [Tag ''head'' []
          [Tag ''meta'' [(''name'', ''description''), (''content'', '''')] [],
           Tag ''meta'' [(''property'', ''og:description''), (''content'', '' OG  text '')] []],
        Tag ''body'' [] [Text ''x'']]]"

text \<open>The parser after a robots.txt that answered 404: everything is allowed.\<close>

definition open_parser :: RobotFileParser where
  "open_parser = new_parser\<lparr>allow_all := True\<rparr>"



section \<open>Notions used in the statements\<close>



text \<open>The URLs that were requested, in order.\<close>

definition fetched :: "event list \<Rightarrow> string list" where
  "fetched evs = concat (map (\<lambda>ev. case ev of Fetch u \<Rightarrow> [u] | Sleep d \<Rightarrow> []) evs)"

text \<open>
  What every pass keeps: the recorded URLs are distinct and visited, and so are the
  requested ones.
\<close>

definition crawl_inv :: "crawl_state \<Rightarrow> bool" where
  "crawl_inv st =
     (distinct (map url (results st)) \<and> set (map url (results st)) \<subseteq> fset (visited st)
      \<and> distinct (fetched (trace st)) \<and> set (fetched (trace st)) \<subseteq> fset (visited st))"

text \<open>No two whitespace characters in a row.\<close>

fun no_double_space :: "string \<Rightarrow> bool" where
  "no_double_space (a # b # cs) = (\<not> (isspace a \<and> isspace b) \<and> no_double_space (b # cs))"
| "no_double_space cs = True"

section \<open>Properties of the URL parser\<close>

lemma before_notin: "c \<notin> set (before c s)"
  by (auto simp: before_def dest: set_takeWhileD)

lemma set_before: "x \<in> set (before c s) \<Longrightarrow> x \<in> set s"
  by (auto simp: before_def dest: set_takeWhileD)

lemma set_after: "x \<in> set (after c s) \<Longrightarrow> x \<in> set s"
  by (auto simp: after_def dest: in_set_dropD set_dropWhileD)

lemma before_id: "c \<notin> set s \<Longrightarrow> before c s = s"
  by (induction s) (auto simp: before_def)

lemma before_append: "c \<notin> set a \<Longrightarrow> before c (a @ c # b) = a"
  by (induction a) (auto simp: before_def)

lemma after_append: "c \<notin> set a \<Longrightarrow> after c (a @ c # b) = b"
  by (induction a) (auto simp: after_def)

lemma before_after: "c \<in> set s \<Longrightarrow> before c s @ c # after c s = s"
  by (induction s) (auto simp: before_def after_def)

lemma set_remove_unsafe: "x \<in> set (remove_unsafe s) \<Longrightarrow> x \<in> set s"
  by (auto simp: remove_unsafe_def)

lemma set_last_segment: "x \<in> set (last_segment u) \<Longrightarrow> x \<in> set u"
  by (auto simp: last_segment_def dest: set_takeWhileD)

lemma set_splitparams_fst: "x \<in> set (fst (splitparams u)) \<Longrightarrow> x \<in> set u"
  by (auto simp: splitparams_def split: if_splits
      dest: in_set_takeD in_set_butlastD set_before set_last_segment)

lemma set_splitparams_snd: "x \<in> set (snd (splitparams u)) \<Longrightarrow> x \<in> set u"
  by (auto simp: splitparams_def split: if_splits dest: set_after set_last_segment)

lemma urlsplit_Inr_D:
  assumes "urlsplit chk u = Inr r"
  shows "\<exists>url1 url2 url3.
           split_scheme (remove_unsafe (lstrip_c0 u)) = (scheme r, url1)
         \<and> split_netloc_part url1 = (netloc r, url2)
         \<and> \<not> netloc_invalid chk (netloc r)
         \<and> split_fragment url2 = (url3, fragment r)
         \<and> split_query url3 = (path r, query r)
         \<and> params r = []"
  using assms unfolding urlsplit_def
  by (auto simp: Let_def split: prod.splits if_splits)

lemma split_scheme_set: "split_scheme w = (s, u1) \<Longrightarrow> x \<in> set u1 \<Longrightarrow> x \<in> set w"
  by (auto simp: split_scheme_def split: if_splits dest: set_after)

lemma split_netloc_part_set:
  "split_netloc_part u1 = (nl, u2) \<Longrightarrow> x \<in> set nl \<or> x \<in> set u2 \<Longrightarrow> x \<in> set u1"
  by (auto simp: split_netloc_part_def splitnetloc_def split: if_splits
      dest: set_takeWhileD set_dropWhileD in_set_dropD)

lemma split_netloc_part_chars:
  "split_netloc_part u1 = (nl, u2) \<Longrightarrow> list_all netloc_char nl"
  by (auto simp: split_netloc_part_def splitnetloc_def list_all_iff split: if_splits
      dest: set_takeWhileD)

lemma split_netloc_part_rest:
  "split_netloc_part u1 = (nl, u2) \<Longrightarrow> nl \<noteq> [] \<Longrightarrow> u2 = [] \<or> \<not> netloc_char (hd u2)"
  using hd_dropWhile[of netloc_char "drop 2 u1"]
  by (auto simp: split_netloc_part_def splitnetloc_def split: if_splits)

lemma split_fragment_D:
  "split_fragment u2 = (u3, f) \<Longrightarrow> CHR ''#'' \<notin> set u3 \<and> set u3 \<subseteq> set u2 \<and> set f \<subseteq> set u2
     \<and> (u2 = [] \<or> hd u2 = CHR ''#'' \<or> (u3 \<noteq> [] \<and> hd u3 = hd u2))"
  apply (auto simp: split_fragment_def before_notin split: if_splits dest: set_before set_after)
  apply (cases u2; auto simp: before_def)+
  done

lemma split_query_D:
  "split_query u3 = (p, q) \<Longrightarrow> CHR ''?'' \<notin> set p \<and> set p \<subseteq> set u3 \<and> set q \<subseteq> set u3
     \<and> (u3 = [] \<or> hd u3 = CHR ''?'' \<or> (p \<noteq> [] \<and> hd p = hd u3))"
  apply (auto simp: split_query_def before_notin split: if_splits dest: set_before set_after)
  apply (cases u3; auto simp: before_def)+
  done

lemma http_cases:
  assumes "sch = ''http'' \<or> sch = ''https''"
  shows "lower sch = sch" "sch \<noteq> []" "hd sch = CHR ''h''" "CHR '':'' \<notin> set sch"
    "list_all (\<lambda>c. c \<in> set scheme_chars) sch" "sch \<in> set uses_params"
    "\<forall>x\<in>set sch. (of_char x :: nat) \<notin> set [9, 13, 10]"
  using assms by (auto simp: lower_def lower_char_def scheme_chars_def uses_params_def)

lemma lstrip_c0_http:
  "sch = ''http'' \<or> sch = ''https'' \<Longrightarrow> lstrip_c0 (sch @ rest) = sch @ rest"
  by (auto simp: lstrip_c0_def)

lemma remove_unsafe_id:
  "\<forall>x\<in>set s. (of_char x :: nat) \<notin> set [9, 13, 10] \<Longrightarrow> remove_unsafe s = s"
  unfolding remove_unsafe_def by (rule filter_True) blast

lemma split_scheme_http:
  assumes "sch = ''http'' \<or> sch = ''https''"
  shows "split_scheme (sch @ CHR '':'' # rest) = (sch, rest)"
proof -
  have b: "before CHR '':'' (sch @ CHR '':'' # rest) = sch"
    and a: "after CHR '':'' (sch @ CHR '':'' # rest) = rest"
    using http_cases(4)[OF assms] by (simp_all add: before_append after_append)
  have "ascii_alpha (hd (sch @ CHR '':'' # rest))"
    using assms by (auto simp: ascii_alpha_def)
  then show ?thesis
    unfolding split_scheme_def b a
    using http_cases(1,2,5)[OF assms] by simp
qed

lemma split_netloc_part_append:
  assumes "list_all netloc_char nl" "rest = [] \<or> \<not> netloc_char (hd rest)"
  shows "split_netloc_part (''//'' @ nl @ rest) = (nl, rest)"
proof -
  have "takeWhile netloc_char (nl @ rest) = nl" "dropWhile netloc_char (nl @ rest) = rest"
    using assms by (cases rest; auto simp: list_all_iff takeWhile_append dropWhile_append)+
  then show ?thesis by (simp add: split_netloc_part_def splitnetloc_def)
qed

lemma split_fragment_none: "CHR ''#'' \<notin> set u \<Longrightarrow> split_fragment u = (u, '''')"
  by (simp add: split_fragment_def)

lemma split_query_append:
  assumes "CHR ''?'' \<notin> set pp"
  shows "split_query (if qry \<noteq> [] then pp @ ''?'' @ qry else pp) = (pp, qry)"
  using assms by (auto simp: split_query_def before_append after_append)

lemma last_segment_no_slash: "CHR ''/'' \<notin> set (last_segment u)"
  by (auto simp: last_segment_def dest: set_takeWhileD)

lemma path_decomp:
  "rev (dropWhile (\<lambda>c. c \<noteq> CHR ''/'') (rev u)) @ last_segment u = u"
proof -
  let ?P = "\<lambda>c. c \<noteq> CHR ''/''"
  have "rev (takeWhile ?P (rev u) @ dropWhile ?P (rev u)) = u" by simp
  then show ?thesis unfolding rev_append last_segment_def .
qed

lemma path_head_eq:
  "take (length u - length (last_segment u)) u = rev (dropWhile (\<lambda>c. c \<noteq> CHR ''/'') (rev u))"
proof -
  let ?d = "rev (dropWhile (\<lambda>c. c \<noteq> CHR ''/'') (rev u))"
  have "length u = length ?d + length (last_segment u)"
    using arg_cong[OF path_decomp[of u], of length] by simp
  then have "take (length u - length (last_segment u)) (?d @ last_segment u) = ?d"
    by simp
  then show ?thesis by (simp add: path_decomp)
qed

lemma path_head_decomp:
  "take (length u - length (last_segment u)) u @ last_segment u = u"
  by (simp only: path_head_eq path_decomp)

lemma last_segment_append:
  assumes "CHR ''/'' \<notin> set b"
  shows "last_segment (a @ b) = last_segment a @ b"
proof -
  have "\<forall>x\<in>set (rev b). x \<noteq> CHR ''/''" using assms by auto
  then have "takeWhile (\<lambda>c. c \<noteq> CHR ''/'') (rev b @ rev a)
             = rev b @ takeWhile (\<lambda>c. c \<noteq> CHR ''/'') (rev a)"
    by (intro takeWhile_append2) auto
  then show ?thesis by (simp add: last_segment_def)
qed

lemma last_segment_path_head:
  "last_segment (take (length u - length (last_segment u)) u) = []"
proof -
  let ?P = "\<lambda>c. c \<noteq> CHR ''/''"
  have tw: "takeWhile ?P (dropWhile ?P xs) = []" for xs :: string
    by (induction xs) auto
  have "last_segment (rev (dropWhile ?P (rev u))) = []"
    by (simp add: last_segment_def tw)
  then show ?thesis by (simp only: path_head_eq)
qed

lemma splitparams_roundtrip:
  assumes "CHR ''/'' \<notin> set prm" "CHR '';'' \<notin> set (last_segment pth)"
    "pth \<noteq> []" "hd pth = CHR ''/''"
  shows "splitparams (pth @ CHR '';'' # prm) = (pth, prm)"
proof -
  have sl: "CHR ''/'' \<in> set (pth @ CHR '';'' # prm)"
    using assms(3,4) by (cases pth) auto
  have ls: "last_segment (pth @ CHR '';'' # prm) = last_segment pth @ CHR '';'' # prm"
    using assms(1) by (simp add: last_segment_append)
  have len: "length (last_segment pth) \<le> length pth"
    using length_takeWhile_le[of "\<lambda>c. c \<noteq> CHR ''/''" "rev pth"]
    by (simp add: last_segment_def)
  have tk: "take (length (pth @ CHR '';'' # prm) - length (last_segment pth @ CHR '';'' # prm))
              (pth @ CHR '';'' # prm) = take (length pth - length (last_segment pth)) pth"
    using len by simp
  have b: "before CHR '';'' (last_segment pth @ CHR '';'' # prm) = last_segment pth"
    by (rule before_append[OF assms(2)])
  have a: "after CHR '';'' (last_segment pth @ CHR '';'' # prm) = prm"
    by (rule after_append[OF assms(2)])
  have semi: "CHR '';'' \<in> set (last_segment pth @ CHR '';'' # prm)" by simp
  show ?thesis
    unfolding splitparams_def ls tk b a using sl semi
    by (simp only: if_True path_head_decomp)
qed

lemma splitparams_noop:
  assumes "CHR '';'' \<notin> set (last_segment pth)" "CHR ''/'' \<in> set pth"
  shows "splitparams pth = (pth, '''')"
  using assms by (simp add: splitparams_def)

lemma splitparams_canonical:
  assumes "u \<noteq> []" "hd u = CHR ''/''"
  shows "fst (splitparams u) \<noteq> [] \<and> hd (fst (splitparams u)) = CHR ''/''
         \<and> CHR '';'' \<notin> set (last_segment (fst (splitparams u)))
         \<and> CHR ''/'' \<notin> set (snd (splitparams u))"
proof -
  have sl: "CHR ''/'' \<in> set u" using assms by (cases u) auto
  show ?thesis
  proof (cases "CHR '';'' \<in> set (last_segment u)")
    case False
    with sl assms show ?thesis by (simp add: splitparams_def)
  next
    case True
    let ?h = "take (length u - length (last_segment u)) u"
    let ?b = "before CHR '';'' (last_segment u)"
    have eq: "splitparams u = (?h @ ?b, after CHR '';'' (last_segment u))"
      using sl True by (simp add: splitparams_def)
    have hne: "?h \<noteq> []"
    proof
      assume "?h = []"
      then have "[] @ last_segment u = u" using path_head_decomp[of u] by (simp only:)
      then have "last_segment u = u" by simp
      then show False using sl last_segment_no_slash[of u] by simp
    qed
    have "hd (?h @ last_segment u) = hd ?h" using hne by simp
    then have hd: "hd ?h = CHR ''/''" using assms(2) by (simp only: path_head_decomp)
    have nb: "CHR ''/'' \<notin> set ?b"
      using last_segment_no_slash[of u] set_before[of "CHR ''/''" "CHR '';''" "last_segment u"]
      by blast
    have "last_segment (?h @ ?b) = ?b"
      using nb by (simp add: last_segment_append last_segment_path_head)
    moreover have "CHR ''/'' \<notin> set (after CHR '';'' (last_segment u))"
      using last_segment_no_slash[of u] set_after[of "CHR ''/''" "CHR '';''" "last_segment u"]
      by blast
    moreover have "hd (?h @ ?b) = CHR ''/''" "?h @ ?b \<noteq> []"
      using hne hd by simp_all
    ultimately show ?thesis
      unfolding eq fst_conv snd_conv using before_notin[of "CHR '';''" "last_segment u"]
      by (simp only: not_False_eq_True simp_thms)
  qed
qed

lemma urlsplit_urlunsplit:
  assumes sch: "sch = ''http'' \<or> sch = ''https''"
    and nl: "list_all netloc_char nl" "\<not> netloc_invalid chk nl" "nl \<noteq> []"
    and pp: "pp = [] \<or> hd pp = CHR ''/''" "CHR ''?'' \<notin> set pp" "CHR ''#'' \<notin> set pp"
    and qry: "CHR ''#'' \<notin> set qry"
    and safe: "\<forall>x\<in>set (nl @ pp @ qry). (of_char x :: nat) \<notin> set [9, 13, 10]"
  shows "urlsplit chk (urlunsplit sch nl pp qry '''')
         = Inr \<lparr>scheme = sch, netloc = nl, path = pp, params = '''', query = qry,
                 fragment = ''''\<rparr>"
proof -
  define rest where "rest = (if qry \<noteq> [] then pp @ ''?'' @ qry else pp)"
  have un: "urlunsplit sch nl pp qry '''' = sch @ CHR '':'' # ''//'' @ nl @ rest"
    using pp(1) nl(3) http_cases(2)[OF sch]
    by (cases pp) (auto simp: urlunsplit_def rest_def Let_def)
  have "\<forall>x\<in>set (sch @ CHR '':'' # ''//'' @ nl @ rest). (of_char x :: nat) \<notin> set [9, 13, 10]"
    using safe http_cases(7)[OF sch] by (auto simp: rest_def)
  then have s1: "remove_unsafe (lstrip_c0 (sch @ CHR '':'' # ''//'' @ nl @ rest))
                 = sch @ CHR '':'' # ''//'' @ nl @ rest"
    by (simp only: lstrip_c0_http[OF sch] remove_unsafe_id)
  have s2: "split_scheme (sch @ CHR '':'' # ''//'' @ nl @ rest) = (sch, ''//'' @ nl @ rest)"
    by (rule split_scheme_http[OF sch])
  have "rest = [] \<or> \<not> netloc_char (hd rest)"
    using pp(1) by (cases pp) (auto simp: rest_def netloc_char_def)
  then have s3: "split_netloc_part (''//'' @ nl @ rest) = (nl, rest)"
    by (rule split_netloc_part_append[OF nl(1)])
  have "CHR ''#'' \<notin> set rest" using pp(3) qry by (auto simp: rest_def)
  then have s4: "split_fragment rest = (rest, '''')" by (rule split_fragment_none)
  have s5: "split_query rest = (pp, qry)"
    unfolding rest_def by (rule split_query_append[OF pp(2)])
  show ?thesis
    unfolding un urlsplit_def s1 s2 by (simp add: s3[simplified] s4 s5 nl(2))
qed

lemma urlparse_urlunparse:
  assumes sch: "sch = ''http'' \<or> sch = ''https''"
    and nl: "list_all netloc_char nl" "\<not> netloc_invalid chk nl" "nl \<noteq> []"
    and pth: "pth = [] \<or> hd pth = CHR ''/''" "CHR ''?'' \<notin> set pth" "CHR ''#'' \<notin> set pth"
      "CHR '';'' \<notin> set (last_segment pth)"
    and prm: "CHR ''?'' \<notin> set prm" "CHR ''#'' \<notin> set prm" "CHR ''/'' \<notin> set prm"
      "pth = [] \<longrightarrow> prm = []"
    and qry: "CHR ''#'' \<notin> set qry"
    and safe: "\<forall>x\<in>set (nl @ pth @ prm @ qry). (of_char x :: nat) \<notin> set [9, 13, 10]"
  shows "urlparse chk (urlunparse \<lparr>scheme = sch, netloc = nl, path = pth, params = prm,
                                    query = qry, fragment = ''''\<rparr>)
         = Inr \<lparr>scheme = sch, netloc = nl, path = pth, params = prm, query = qry,
                 fragment = ''''\<rparr>"
proof -
  define pp where "pp = (if prm \<noteq> [] then pth @ '';'' @ prm else pth)"
  have pp1: "pp = [] \<or> hd pp = CHR ''/''" using pth(1) prm(4) by (cases pth) (auto simp: pp_def)
  have pp2: "CHR ''?'' \<notin> set pp" "CHR ''#'' \<notin> set pp"
    using pth(2,3) prm(1,2) by (auto simp: pp_def)
  have pp3: "\<forall>x\<in>set (nl @ pp @ qry). (of_char x :: nat) \<notin> set [9, 13, 10]"
    using safe by (auto simp: pp_def)
  have split: "urlsplit chk (urlunsplit sch nl pp qry '''')
         = Inr \<lparr>scheme = sch, netloc = nl, path = pp, params = '''', query = qry,
                 fragment = ''''\<rparr>"
    by (rule urlsplit_urlunsplit[OF sch nl pp1 pp2 qry pp3])
  have un: "urlunparse \<lparr>scheme = sch, netloc = nl, path = pth, params = prm,
                         query = qry, fragment = ''''\<rparr> = urlunsplit sch nl pp qry ''''"
    by (simp add: urlunparse_def pp_def)
  show ?thesis
  proof (cases "prm = []")
    case True
    then have [simp]: "pp = pth" by (simp add: pp_def)
    show ?thesis
    proof (cases "CHR '';'' \<in> set pth")
      case False
      then show ?thesis unfolding un urlparse_def split using True by simp
    next
      case semi: True
      then have "pth \<noteq> []" by auto
      then have "CHR ''/'' \<in> set pth" using pth(1) by (cases pth) auto
      then have "splitparams pth = (pth, '''')" by (rule splitparams_noop[OF pth(4)])
      then show ?thesis
        unfolding un urlparse_def split using True semi http_cases(6)[OF sch] by simp
    qed
  next
    case False
    then have ne: "pth \<noteq> []" and hd: "hd pth = CHR ''/''" using prm(4) pth(1) by auto
    have "pp = pth @ CHR '';'' # prm" using False by (simp add: pp_def)
    moreover have "splitparams (pth @ CHR '';'' # prm) = (pth, prm)"
      by (rule splitparams_roundtrip[OF prm(3) pth(4) ne hd])
    ultimately show ?thesis
      unfolding un urlparse_def split using http_cases(6)[OF sch] by simp
  qed
qed

lemma split_fragment_hd:
  "split_fragment u2 = (u3, f) \<Longrightarrow> u3 = [] \<or> (u2 \<noteq> [] \<and> hd u3 = hd u2)"
  by (cases u2) (auto simp: split_fragment_def before_def split: if_splits)

lemma split_query_hd:
  "split_query u3 = (p, q) \<Longrightarrow> p = [] \<or> (u3 \<noteq> [] \<and> hd p = hd u3)"
  by (cases u3) (auto simp: split_query_def before_def split: if_splits)

lemma remove_unsafe_safe:
  "x \<in> set (remove_unsafe w) \<Longrightarrow> (of_char x :: nat) \<notin> set [9, 13, 10]"
  by (simp add: remove_unsafe_def)

lemma urlsplit_shape:
  assumes "urlsplit chk u = Inr r"
  shows "list_all netloc_char (netloc r)" "\<not> netloc_invalid chk (netloc r)"
    "CHR ''?'' \<notin> set (path r)" "CHR ''#'' \<notin> set (path r)" "CHR ''#'' \<notin> set (query r)"
    "\<forall>x\<in>set (netloc r @ path r @ query r). (of_char x :: nat) \<notin> set [9, 13, 10]"
    "netloc r \<noteq> [] \<Longrightarrow> path r = [] \<or> hd (path r) = CHR ''/''"
    "params r = []"
proof -
  from urlsplit_Inr_D[OF assms] obtain url1 url2 url3 where
    s1: "split_scheme (remove_unsafe (lstrip_c0 u)) = (scheme r, url1)"
    and s2: "split_netloc_part url1 = (netloc r, url2)"
    and s3: "\<not> netloc_invalid chk (netloc r)"
    and s4: "split_fragment url2 = (url3, fragment r)"
    and s5: "split_query url3 = (path r, query r)"
    and s6: "params r = []" by blast
  show "list_all netloc_char (netloc r)" by (rule split_netloc_part_chars[OF s2])
  show "\<not> netloc_invalid chk (netloc r)" by (rule s3)
  show "params r = []" by (rule s6)
  note f = split_fragment_D[OF s4] and q = split_query_D[OF s5]
  show q1: "CHR ''?'' \<notin> set (path r)" using q by blast
  show h1: "CHR ''#'' \<notin> set (path r)" using q f by blast
  show "CHR ''#'' \<notin> set (query r)" using q f by blast
  have sub: "x \<in> set (netloc r @ path r @ query r) \<Longrightarrow> x \<in> set url1" for x
    using q f split_netloc_part_set[OF s2, of x] by auto
  show "\<forall>x\<in>set (netloc r @ path r @ query r). (of_char x :: nat) \<notin> set [9, 13, 10]"
    using sub split_scheme_set[OF s1] remove_unsafe_safe by blast
  show "path r = [] \<or> hd (path r) = CHR ''/''" if "netloc r \<noteq> []"
  proof (cases "path r = []")
    case False
    with split_query_hd[OF s5] have u3: "url3 \<noteq> []" "hd (path r) = hd url3" by auto
    with split_fragment_hd[OF s4] have u2: "url2 \<noteq> []" "hd url3 = hd url2" by auto
    from split_netloc_part_rest[OF s2 that] u2 have "\<not> netloc_char (hd url2)" by simp
    then have "hd (path r) \<in> set ''/?#''" using u3 u2 by (simp add: netloc_char_def)
    moreover have "hd (path r) \<in> set (path r)" using False by simp
    ultimately show ?thesis using q1 h1 by auto
  qed simp
qed

lemma urlparse_shape:
  assumes "urlparse chk u = Inr p" "netloc p \<noteq> []"
  shows "list_all netloc_char (netloc p)" "\<not> netloc_invalid chk (netloc p)"
    "path p = [] \<or> hd (path p) = CHR ''/''"
    "CHR ''?'' \<notin> set (path p)" "CHR ''#'' \<notin> set (path p)"
    "scheme p \<in> set uses_params \<longrightarrow> CHR '';'' \<notin> set (last_segment (path p))"
    "CHR ''?'' \<notin> set (params p)" "CHR ''#'' \<notin> set (params p)"
    "CHR ''/'' \<notin> set (params p)" "path p = [] \<longrightarrow> params p = []"
    "CHR ''#'' \<notin> set (query p)"
    "\<forall>x\<in>set (netloc p @ path p @ params p @ query p). (of_char x :: nat) \<notin> set [9, 13, 10]"
proof -
  from assms(1) obtain r where r: "urlsplit chk u = Inr r"
    and p: "p = (if scheme r \<in> set uses_params \<and> CHR '';'' \<in> set (path r)
                 then r\<lparr>path := fst (splitparams (path r)), params := snd (splitparams (path r))\<rparr>
                 else r)"
    by (auto simp: urlparse_def split: sum.splits if_splits)
  have nl: "netloc p = netloc r" "query p = query r" by (simp_all add: p)
  note sh = urlsplit_shape[OF r]
  show "list_all netloc_char (netloc p)" "\<not> netloc_invalid chk (netloc p)"
    "CHR ''#'' \<notin> set (query p)"
    using sh by (simp_all add: nl)
  have rp: "path r = [] \<or> hd (path r) = CHR ''/''" using sh(7) assms(2) nl by simp
  have sub: "x \<in> set (path p @ params p) \<Longrightarrow> x \<in> set (path r)" for x
    using sh(8) by (auto simp: p dest: set_splitparams_fst set_splitparams_snd split: if_splits)
  show "CHR ''?'' \<notin> set (path p)" "CHR ''#'' \<notin> set (path p)"
    "CHR ''?'' \<notin> set (params p)" "CHR ''#'' \<notin> set (params p)"
    using sub sh(3,4) by auto
  show "\<forall>x\<in>set (netloc p @ path p @ params p @ query p). (of_char x :: nat) \<notin> set [9, 13, 10]"
    using sub sh(6) by (auto simp: nl)
  show "path p = [] \<or> hd (path p) = CHR ''/''"
    "scheme p \<in> set uses_params \<longrightarrow> CHR '';'' \<notin> set (last_segment (path p))"
    "CHR ''/'' \<notin> set (params p)" "path p = [] \<longrightarrow> params p = []"
  proof -
    consider (split) "scheme r \<in> set uses_params" "CHR '';'' \<in> set (path r)"
      | (same) "p = r" "\<not> (scheme r \<in> set uses_params \<and> CHR '';'' \<in> set (path r))"
      using p by (auto split: if_splits)
    then have "(path p = [] \<or> hd (path p) = CHR ''/'')
      \<and> (scheme p \<in> set uses_params \<longrightarrow> CHR '';'' \<notin> set (last_segment (path p)))
      \<and> CHR ''/'' \<notin> set (params p) \<and> (path p = [] \<longrightarrow> params p = [])"
    proof cases
      case split
      then have ne: "path r \<noteq> []" by auto
      with rp have hd: "hd (path r) = CHR ''/''" by simp
      from splitparams_canonical[OF ne hd] split show ?thesis by (simp add: p)
    next
      case same
      then show ?thesis using rp sh(8) set_last_segment[of "CHR '';''" "path r"] by auto
    qed
    then show "path p = [] \<or> hd (path p) = CHR ''/''"
      "scheme p \<in> set uses_params \<longrightarrow> CHR '';'' \<notin> set (last_segment (path p))"
      "CHR ''/'' \<notin> set (params p)" "path p = [] \<longrightarrow> params p = []" by blast+
  qed
qed


section \<open>Properties of the crawl loop\<close>

lemma fetched_append [simp]: "fetched (xs @ ys) = fetched xs @ fetched ys"
  by (simp add: fetched_def)

lemma fetched_simps [simp]:
  "fetched [] = []" "fetched (Fetch u # evs) = u # fetched evs"
  "fetched (Sleep d # evs) = fetched evs"
  by (simp_all add: fetched_def)

lemma url_extend [simp]: "url (ExtractedContent.extend d \<lparr>url = u\<rparr>) = u"
  by (simp add: ExtractedContent.defs PageRecord.defs)

lemma crawl_inv_initial: "crawl_inv (initial_state b)"
  by (simp add: crawl_inv_def initial_state_def)

lemma crawl_step_cases:
  assumes "crawl_step e rp bd delay st = Inr st'"
  shows "(visited st' = visited st \<and> queue st' = tl (queue st)
          \<and> results st' = results st \<and> trace st' = trace st)
       \<or> (\<exists>u. u |\<notin>| visited st \<and> visited st' = finsert u (visited st)
            \<and> queue st' = tl (queue st) \<and> results st' = results st
            \<and> (trace st' = trace st \<or> trace st' = trace st @ [Fetch u]))
       \<or> (\<exists>u d q. u |\<notin>| visited st \<and> visited st' = finsert u (visited st)
            \<and> queue st' = q
            \<and> results st' = results st @ [ExtractedContent.extend d \<lparr>url = u\<rparr>]
            \<and> trace st' = trace st @ [Fetch u, Sleep delay])"
  using assms unfolding crawl_step_def
  by (auto simp: Let_def split: sum.splits if_splits fetch_result.splits prod.splits)

lemma crawl_step_inv:
  assumes "crawl_inv st" "crawl_step e rp bd delay st = Inr st'"
  shows "crawl_inv st'"
  using crawl_step_cases[OF assms(2)] assms(1)
  by (auto simp: crawl_inv_def; blast)

lemma crawl_step_visited_mono:
  assumes "crawl_step e rp bd delay st = Inr st'"
  shows "visited st |\<subseteq>| visited st'"
  using crawl_step_cases[OF assms] by auto

lemma crawl_step_bound:
  assumes "loop_guard mp st" "crawl_step e rp bd delay st = Inr st'"
  shows "int (fcard (visited st')) \<le> mp"
  using crawl_step_cases[OF assms(2)] assms(1)
  by (auto simp: loop_guard_def fcard_finsert_disjoint)

lemma crawl_inv_length:
  assumes "crawl_inv st"
  shows "length (results st) \<le> fcard (visited st)"
proof -
  have "length (results st) = card (set (map url (results st)))"
    using assms by (metis crawl_inv_def distinct_card length_map)
  also have "\<dots> \<le> card (fset (visited st))"
    using assms by (intro card_mono) (auto simp: crawl_inv_def)
  finally show ?thesis by (simp add: fcard.rep_eq)
qed

lemma after_passes_inv:
  assumes "crawl_inv st" "after_passes e rp bd mp delay n st = Inr st'"
  shows "crawl_inv st' \<and> visited st |\<subseteq>| visited st'"
  using assms
proof (induction n arbitrary: st)
  case 0
  then show ?case by simp
next
  case (Suc n)
  show ?case
  proof (cases "loop_guard mp st")
    case False
    with Suc.prems show ?thesis by simp
  next
    case True
    with Suc.prems(2) obtain st1 where s: "crawl_step e rp bd delay st = Inr st1"
      and r: "after_passes e rp bd mp delay n st1 = Inr st'"
      by (auto split: sum.splits)
    from Suc.IH[OF crawl_step_inv[OF Suc.prems(1) s] r] crawl_step_visited_mono[OF s]
    show ?thesis by auto
  qed
qed

lemma after_passes_bound:
  assumes "int (fcard (visited st)) \<le> mp" "after_passes e rp bd mp delay n st = Inr st'"
  shows "int (fcard (visited st')) \<le> mp"
  using assms
proof (induction n arbitrary: st)
  case 0
  then show ?case by simp
next
  case (Suc n)
  show ?case
  proof (cases "loop_guard mp st")
    case False
    with Suc.prems show ?thesis by simp
  next
    case True
    with Suc.prems(2) obtain st1 where s: "crawl_step e rp bd delay st = Inr st1"
      and r: "after_passes e rp bd mp delay n st1 = Inr st'"
      by (auto split: sum.splits)
    from Suc.IH[OF crawl_step_bound[OF True s] r] show ?thesis .
  qed
qed

lemma crawl_loop_after_passes:
  "\<exists>n. crawl_loop e rp bd mp delay st = after_passes e rp bd mp delay n st"
proof (induction e rp bd mp delay st rule: crawl_loop.induct)
  case (1 e rp bd mp delay st)
  show ?case
  proof (cases "loop_guard mp st")
    case False
    then have "crawl_loop e rp bd mp delay st = after_passes e rp bd mp delay 0 st"
      by (simp add: crawl_loop.simps)
    then show ?thesis by blast
  next
    case True
    show ?thesis
    proof (cases "crawl_step e rp bd delay st")
      case (Inl err)
      with True have "crawl_loop e rp bd mp delay st = after_passes e rp bd mp delay (Suc 0) st"
        by (simp add: crawl_loop.simps)
      then show ?thesis by blast
    next
      case (Inr st1)
      from "1.IH"[OF True Inr] obtain n where
        "crawl_loop e rp bd mp delay st1 = after_passes e rp bd mp delay n st1" by blast
      with True Inr have "crawl_loop e rp bd mp delay st = after_passes e rp bd mp delay (Suc n) st"
        by (simp add: crawl_loop.simps)
      then show ?thesis by blast
    qed
  qed
qed

section \<open>The URL normaliser\<close>

lemma urlparse_empty:
  "urlparse chk '''' = Inr \<lparr>scheme = '''', netloc = '''', path = '''',
     params = '''', query = '''', fragment = ''''\<rparr>"
  by (simp add: urlparse_def urlsplit_def lstrip_c0_def remove_unsafe_def split_scheme_def
      split_netloc_part_def split_fragment_def split_query_def netloc_invalid_def)

lemma clean_url_empty: "clean_url chk '''' = Inr ''''"
  by (simp add: clean_url_def urlparse_empty)

lemma clean_url_Inr_cases:
  assumes "clean_url chk u = Inr v"
  shows "v = [] \<or> (\<exists>p. urlparse chk u = Inr p \<and> (scheme p = ''http'' \<or> scheme p = ''https'')
           \<and> netloc p \<noteq> [] \<and> \<not> list_ex (\<lambda>ext. endswith (lower (path p)) ext) SKIP_EXTENSIONS
           \<and> v = urlunparse (p\<lparr>fragment := ''''\<rparr>))"
  using assms by (auto simp: clean_url_def split: sum.splits if_splits)

lemma urlparse_accepted_roundtrip:
  assumes p: "urlparse chk u = Inr p" and sch: "scheme p = ''http'' \<or> scheme p = ''https''"
    and nl: "netloc p \<noteq> []"
  shows "urlparse chk (urlunparse (p\<lparr>fragment := ''''\<rparr>)) = Inr (p\<lparr>fragment := ''''\<rparr>)"
proof -
  note sh = urlparse_shape[OF p nl]
  have eq: "p\<lparr>fragment := ''''\<rparr> = \<lparr>scheme = scheme p, netloc = netloc p, path = path p,
      params = params p, query = query p, fragment = ''''\<rparr>" by simp
  have semi: "CHR '';'' \<notin> set (last_segment (path p))"
    using sh(6) http_cases(6)[OF sch] by simp
  show ?thesis
    unfolding eq
    by (rule urlparse_urlunparse[OF sch sh(1,2) nl sh(3,4,5) semi sh(7,8,9,10,11,12)])
qed

lemma urlunparse_accepted_no_hash:
  assumes p: "urlparse chk u = Inr p" and sch: "scheme p = ''http'' \<or> scheme p = ''https''"
    and nl: "netloc p \<noteq> []"
  shows "CHR ''#'' \<notin> set (urlunparse (p\<lparr>fragment := ''''\<rparr>))"
proof -
  note sh = urlparse_shape[OF p nl]
  have "CHR ''#'' \<notin> set (scheme p)" using sch by auto
  moreover have "CHR ''#'' \<notin> set (netloc p)"
    using sh(1) by (auto simp: list_all_iff netloc_char_def)
  ultimately show ?thesis
    using sh(5,8,11) by (auto simp: urlunparse_def urlunsplit_def Let_def)
qed

lemma hostname_empty_netloc: "netloc p = [] \<Longrightarrow> hostname p = None"
  by (simp add: hostname_def hostinfo_def before_def Let_def)

text \<open>
  C4, as amended. For every input that the URL parser accepts (\<open>urlparse\<close> raises no
  \<^verbatim>\<open>ValueError\<close>), \<open>clean_url\<close> returns the empty string if the scheme or the network
  location (\<^verbatim>\<open>netloc\<close>: user information, host and port together) is absent, the scheme is
  neither http nor https, or the lower-cased path ends in a skip-listed extension;
  otherwise it returns the URL put together again with the fragment removed. Whatever it
  returns holds no \<^verbatim>\<open>#\<close>. A URL without network location has no host; one with a network
  location and no host is not rejected for that.
\<close>

theorem clean_url_spec:
  assumes "urlparse chk u = Inr p"
  shows "clean_url chk u =
           (if scheme p = [] \<or> netloc p = [] \<or> scheme p \<notin> {''http'', ''https''}
               \<or> (\<exists>ext \<in> set SKIP_EXTENSIONS. endswith (lower (path p)) ext)
            then Inr '''' else Inr (urlunparse (p\<lparr>fragment := ''''\<rparr>)))
         \<and> (\<forall>v. clean_url chk u = Inr v \<longrightarrow> CHR ''#'' \<notin> set v)
         \<and> (netloc p = [] \<longrightarrow> hostname p = None)"
proof (intro conjI)
  show eq: "clean_url chk u =
           (if scheme p = [] \<or> netloc p = [] \<or> scheme p \<notin> {''http'', ''https''}
               \<or> (\<exists>ext \<in> set SKIP_EXTENSIONS. endswith (lower (path p)) ext)
            then Inr '''' else Inr (urlunparse (p\<lparr>fragment := ''''\<rparr>)))"
    using assms by (simp add: clean_url_def list_ex_iff)
  show "\<forall>v. clean_url chk u = Inr v \<longrightarrow> CHR ''#'' \<notin> set v"
  proof (intro allI impI)
    fix v assume v: "clean_url chk u = Inr v"
    from clean_url_Inr_cases[OF v] show "CHR ''#'' \<notin> set v"
      using assms urlunparse_accepted_no_hash[OF assms] by auto
  qed
  show "netloc p = [] \<longrightarrow> hostname p = None"
    using hostname_empty_netloc by blast
qed

theorem clean_url_spec_witness:
  "clean_url any_host ''http://a.co/x#frag'' = Inr ''http://a.co/x''
   \<and> CHR ''#'' \<notin> set ''http://a.co/x''"
proof -
  let ?p = "\<lparr>scheme = ''http'', netloc = ''a.co'', path = ''/x'', params = '''',
             query = '''', fragment = ''frag''\<rparr>"
  have p: "urlparse any_host ''http://a.co/x#frag'' = Inr ?p" by code_simp
  have c: "\<not> (scheme ?p = [] \<or> netloc ?p = [] \<or> scheme ?p \<notin> {''http'', ''https''}
               \<or> (\<exists>ext \<in> set SKIP_EXTENSIONS. endswith (lower (path ?p)) ext))"
    by code_simp
  have u: "urlunparse (?p\<lparr>fragment := ''''\<rparr>) = ''http://a.co/x''" by code_simp
  from clean_url_spec[OF p] c u show ?thesis by (simp only: if_False) simp
qed

text \<open>
  The claim as stated fails in two ways. Where the parser raises: the URL \<^verbatim>\<open>ftp://[x\<close> has
  the scheme ftp, which is neither http nor https, and \<open>clean_url\<close> does not return the
  empty string for it but raises \<^verbatim>\<open>ValueError\<close> (a \<^verbatim>\<open>[\<close> without its \<^verbatim>\<open>]\<close>). And where the
  host is absent while the network location is not: \<^verbatim>\<open>http://:80/x\<close> and \<^verbatim>\<open>http://user@/x\<close>
  have no host (\<open>hostname\<close> is \<open>None\<close>), the parser accepts them, and \<open>clean_url\<close> returns
  them as they are, since it tests the network location.
\<close>

theorem clean_url_claim_counterexample:
  "split_scheme ''ftp://[x'' = (''ftp'', ''//[x'')
   \<and> clean_url any_host ''ftp://[x'' = Inl ValueError
   \<and> urlparse any_host ''http://:80/x''
       = Inr \<lparr>scheme = ''http'', netloc = '':80'', path = ''/x'', params = [],
               query = [], fragment = []\<rparr>
   \<and> hostname \<lparr>scheme = ''http'', netloc = '':80'', path = ''/x'', params = [],
                 query = [], fragment = []\<rparr> = None
   \<and> clean_url any_host ''http://:80/x'' = Inr ''http://:80/x''
   \<and> urlparse any_host ''http://user@/x''
       = Inr \<lparr>scheme = ''http'', netloc = ''user@'', path = ''/x'', params = [],
               query = [], fragment = []\<rparr>
   \<and> hostname \<lparr>scheme = ''http'', netloc = ''user@'', path = ''/x'', params = [],
                 query = [], fragment = []\<rparr> = None
   \<and> clean_url any_host ''http://user@/x'' = Inr ''http://user@/x''"
  by code_simp

text \<open>
  C10. Normalisation is idempotent: normalising the result of \<open>clean_url\<close> gives the same
  result again, for every string and every validation of bracketed hosts; the rejected
  result, the empty string, is mapped to itself, and where the first call raises so does
  the composition.
\<close>

theorem clean_url_idempotent:
  "(case clean_url chk u of Inl e \<Rightarrow> Inl e | Inr v \<Rightarrow> clean_url chk v) = clean_url chk u"
proof (cases "clean_url chk u")
  case (Inl e)
  then show ?thesis by simp
next
  case (Inr v)
  from clean_url_Inr_cases[OF Inr] show ?thesis
  proof
    assume "v = []"
    then show ?thesis using Inr by (simp add: clean_url_empty)
  next
    assume "\<exists>p. urlparse chk u = Inr p \<and> (scheme p = ''http'' \<or> scheme p = ''https'')
           \<and> netloc p \<noteq> [] \<and> \<not> list_ex (\<lambda>ext. endswith (lower (path p)) ext) SKIP_EXTENSIONS
           \<and> v = urlunparse (p\<lparr>fragment := ''''\<rparr>)"
    then obtain p where p: "urlparse chk u = Inr p"
      and sch: "scheme p = ''http'' \<or> scheme p = ''https''"
      and nl: "netloc p \<noteq> []"
      and ext: "\<not> list_ex (\<lambda>ext. endswith (lower (path p)) ext) SKIP_EXTENSIONS"
      and v: "v = urlunparse (p\<lparr>fragment := ''''\<rparr>)" by blast
    have "urlparse chk v = Inr (p\<lparr>fragment := ''''\<rparr>)"
      unfolding v by (rule urlparse_accepted_roundtrip[OF p sch nl])
    then have "clean_url chk v = Inr v"
      using sch nl ext by (auto simp: clean_url_def v)
    then show ?thesis using Inr by simp
  qed
qed

theorem clean_url_idempotent_witness:
  "clean_url any_host ''HTTP://a.co/x;p?q#frag'' = Inr ''http://a.co/x;p?q''
   \<and> clean_url any_host ''http://a.co/x;p?q'' = Inr ''http://a.co/x;p?q''"
proof -
  have a: "clean_url any_host ''HTTP://a.co/x;p?q#frag'' = Inr ''http://a.co/x;p?q''"
    by code_simp
  show ?thesis
    using clean_url_idempotent[of any_host "''HTTP://a.co/x;p?q#frag''"] by (simp add: a)
qed

section \<open>Domain scoping\<close>

lemma same_domain_iff:
  assumes "urlparse chk u = Inr p"
  shows "same_domain chk u base_domain
         = Inr (lower (netloc p) = base_domain \<or> suffix (''.'' @ base_domain) (lower (netloc p)))"
  using assms by (simp add: same_domain_def endswith_def)

lemma same_domain_subdomain: "same_domain any_host ''http://blog.example.com/p'' ''example.com'' = Inr True"
  by code_simp

lemma same_domain_other_host: "same_domain any_host ''http://evil.com/example.com'' ''example.com'' = Inr False"
  by code_simp

lemma base_domain_of_leading_www: "base_domain_of any_host ''https://www.durex.es/'' = Inr ''durex.es''"
  by code_simp

text \<open>
  C3. The domain test itself is as the claim says (\<open>same_domain_iff\<close> and the two examples
  above). The base domain is not: \<open>crawl_site\<close> deletes every occurrence of \<^verbatim>\<open>www.\<close> in the
  network location of the base URL, not only a leading one, so for the base URL
  \<^verbatim>\<open>http://mywww.example.com/\<close> the base domain is \<^verbatim>\<open>myexample.com\<close>, and the pages of
  the site itself are then outside its own domain.
\<close>

theorem base_domain_of_inner_www:
  "base_domain_of any_host ''http://mywww.example.com/'' = Inr ''myexample.com''
   \<and> same_domain any_host ''http://mywww.example.com/about'' ''myexample.com'' = Inr False"
  by code_simp

section \<open>The content extractor and the score\<close>

text \<open>
  \<open>normalize_text\<close> collapses and trims: after \<open>collapse_ws\<close> the only whitespace left is
  the space and no two stand in a row, and the result of \<open>normalize_text\<close> neither starts
  nor ends with whitespace.
\<close>

lemma collapse_ws_spaces: "x \<in> set (collapse_ws s) \<Longrightarrow> isspace x \<Longrightarrow> x = CHR '' ''"
  by (induction s rule: collapse_ws.induct) (auto split: if_splits)

lemma collapse_ws_hd: "collapse_ws s \<noteq> [] \<Longrightarrow> s \<noteq> [] \<and> (isspace (hd (collapse_ws s)) \<longleftrightarrow> isspace (hd s))"
  by (induction s rule: collapse_ws.induct) (auto simp: isspace_def split: if_splits)

lemma collapse_ws_no_double: "no_double_space (collapse_ws s)"
proof (induction s rule: collapse_ws.induct)
  case 1
  then show ?case by simp
next
  case (2 c cs)
  show ?case
  proof (cases "isspace c")
    case True
    have "collapse_ws (dropWhile isspace cs) = [] \<or> \<not> isspace (hd (collapse_ws (dropWhile isspace cs)))"
      using collapse_ws_hd[of "dropWhile isspace cs"] hd_dropWhile[of isspace cs] by auto
    with 2 True show ?thesis by (cases "collapse_ws (dropWhile isspace cs)") auto
  next
    case False
    with 2 show ?thesis by (cases "collapse_ws cs") auto
  qed
qed

lemma last_dropWhile_eq: "dropWhile P xs \<noteq> [] \<Longrightarrow> last (dropWhile P xs) = last xs"
  by (induction xs) auto

lemma strip_trimmed:
  "strip s = [] \<or> (\<not> isspace (hd (strip s)) \<and> \<not> isspace (last (strip s)))"
proof -
  let ?a = "dropWhile isspace s"
  let ?b = "dropWhile isspace (rev ?a)"
  show ?thesis
  proof (cases "?b = []")
    case True
    then show ?thesis by (simp add: strip_def)
  next
    case False
    then have l: "\<not> isspace (hd ?b)" by (rule hd_dropWhile)
    have ne: "?a \<noteq> []"
    proof
      assume "?a = []"
      then have "?b = []" by (simp only: rev.simps(1) dropWhile.simps(1))
      with False show False by simp
    qed
    then have h: "\<not> isspace (hd ?a)" by (rule hd_dropWhile)
    have "last ?b = last (rev ?a)" using False by (rule last_dropWhile_eq)
    then have "last ?b = hd ?a" using ne by (simp add: last_rev)
    then show ?thesis using h l False by (simp add: strip_def last_rev hd_rev)
  qed
qed

lemma normalize_text_trimmed:
  "normalize_text s = []
   \<or> (\<not> isspace (hd (normalize_text s)) \<and> \<not> isspace (last (normalize_text s)))"
  unfolding normalize_text_def by (rule strip_trimmed)

lemma truthy_content_Some_iff:
  "truthy_content found = Some c
   \<longleftrightarrow> (\<exists>m. found = Some m \<and> get_attr m ''content'' = Some c \<and> c \<noteq> [])"
  by (auto simp: truthy_content_def split: option.splits if_splits)

lemma extract_content_soup: "snd (extract_content soup) = decompose_list BOILERPLATE soup"
  by (simp add: extract_content_def Let_def)

text \<open>
  C5. The score of an extracted page is its content length, plus 80 for each heading
  (\<^verbatim>\<open>h1\<close>, \<^verbatim>\<open>h2\<close>, \<^verbatim>\<open>h3\<close>) left in the document, plus twice the length of its description; a
  content length of 500, three headings and a description of length 50 give 840.
\<close>

theorem score_formula:
  "score (fst (extract_content soup))
     = content_length (fst (extract_content soup))
       + (h_count (snd (extract_content soup)) * 80)
       + (int (length (meta_description (fst (extract_content soup)))) * 2)
   \<and> (content_length (fst (extract_content soup)) = 500
        \<and> h_count (snd (extract_content soup)) = 3
        \<and> length (meta_description (fst (extract_content soup))) = 50
      \<longrightarrow> score (fst (extract_content soup)) = 840)"
  by (simp add: extract_content_def Let_def)

theorem score_formula_witness:
  "content_length (fst (extract_content rich_page)) = 500
   \<and> h_count (snd (extract_content rich_page)) = 3
   \<and> length (meta_description (fst (extract_content rich_page))) = 50
   \<and> score (fst (extract_content rich_page)) = 840"
proof -
  have a: "content_length (fst (extract_content rich_page)) = 500" by code_simp
  have b: "h_count (snd (extract_content rich_page)) = 3" by code_simp
  have c: "length (meta_description (fst (extract_content rich_page))) = 50" by code_simp
  from score_formula[of rich_page] a b c show ?thesis by simp
qed

text \<open>
  C6, as amended. In the document with the boilerplate taken out, let \<open>m\<close> be the first
  \<^verbatim>\<open>meta\<close> tag whose name is \<^verbatim>\<open>description\<close> and \<open>g\<close> the first whose property is
  \<^verbatim>\<open>og:description\<close>. The description is the normalised \<^verbatim>\<open>content\<close> of \<open>m\<close> when \<open>m\<close> exists
  and its \<^verbatim>\<open>content\<close> is there and not empty; failing that, the normalised \<^verbatim>\<open>content\<close> of \<open>g\<close>
  on the same condition; failing both, the empty string.
\<close>

theorem meta_description_fallback:
  "(\<forall>m c. find_first is_meta_description (snd (extract_content soup)) = Some m
           \<and> get_attr m ''content'' = Some c \<and> c \<noteq> []
        \<longrightarrow> meta_description (fst (extract_content soup)) = normalize_text c)
   \<and> (\<forall>g c. truthy_content (find_first is_meta_description (snd (extract_content soup))) = None
           \<and> find_first is_og_description (snd (extract_content soup)) = Some g
           \<and> get_attr g ''content'' = Some c \<and> c \<noteq> []
        \<longrightarrow> meta_description (fst (extract_content soup)) = normalize_text c)
   \<and> (truthy_content (find_first is_meta_description (snd (extract_content soup))) = None
        \<and> truthy_content (find_first is_og_description (snd (extract_content soup))) = None
      \<longrightarrow> meta_description (fst (extract_content soup)) = '''')"
  by (auto simp: extract_content_def Let_def truthy_content_def split: option.splits)

theorem meta_description_fallback_witness:
  "meta_description (fst (extract_content rich_page)) = replicate 50 CHR ''m''
   \<and> meta_description (fst (extract_content empty_meta_page)) = ''OG text''"
proof -
  let ?m = "Tag ''meta'' [(''name'', ''description''), (''content'', replicate 50 CHR ''m'')] []"
  let ?g = "Tag ''meta'' [(''property'', ''og:description''), (''content'', '' OG  text '')] []"
  have m: "find_first is_meta_description (snd (extract_content rich_page)) = Some ?m"
    by code_simp
  have mc: "get_attr ?m ''content'' = Some (replicate 50 CHR ''m'')"
    "replicate 50 CHR ''m'' \<noteq> []"
    "normalize_text (replicate 50 CHR ''m'') = replicate 50 CHR ''m''" by code_simp+
  have n: "truthy_content (find_first is_meta_description (snd (extract_content empty_meta_page)))
           = None" by code_simp
  have g: "find_first is_og_description (snd (extract_content empty_meta_page)) = Some ?g"
    by code_simp
  have gc: "get_attr ?g ''content'' = Some '' OG  text ''" "'' OG  text '' \<noteq> []"
    "normalize_text '' OG  text '' = ''OG text''" by code_simp+
  have "meta_description (fst (extract_content rich_page)) = normalize_text (replicate 50 CHR ''m'')"
    using meta_description_fallback[of rich_page] m mc(1,2) by blast
  moreover have "meta_description (fst (extract_content empty_meta_page))
                 = normalize_text '' OG  text ''"
    using meta_description_fallback[of empty_meta_page] n g gc(1,2) by blast
  ultimately show ?thesis by (simp only: mc(3) gc(3))
qed

text \<open>
  The claim as stated fails on a description tag that is present with an empty
  \<^verbatim>\<open>content\<close>: the description is then not the trimmed content of that tag (the empty
  string) but comes from the \<^verbatim>\<open>og:description\<close> tag.
\<close>

theorem meta_description_counterexample:
  "find_first is_meta_description (snd (extract_content empty_meta_page))
     = Some (Tag ''meta'' [(''name'', ''description''), (''content'', '''')] [])
   \<and> normalize_text '''' = ''''
   \<and> meta_description (fst (extract_content empty_meta_page)) = ''OG text''"
  by code_simp

section \<open>The politeness gate\<close>

text \<open>
  C1. When the fetch of \<^verbatim>\<open><scheme>://<netloc>/robots.txt\<close> fails with an error of the
  transport, \<open>build_robot_parser\<close> catches the exception and returns the parser as
  \<^verbatim>\<open>__init__\<close> left it, with \<^verbatim>\<open>last_checked\<close> zero; \<^verbatim>\<open>can_fetch\<close> of such a parser is false for
  every user agent and every URL. The gate is closed, not permissive: the crawl marks its
  base URL visited and fetches nothing.
\<close>

theorem robots_unreachable_denies_all:
  assumes "urlparse (check_bracketed_host e) base_url = Inr parsed"
    and "urlopen e (scheme parsed @ ''://'' @ netloc parsed @ ''/robots.txt'') = TransportError"
  shows "build_robot_parser e base_url = Inr new_parser
       \<and> can_fetch e new_parser useragent u = Inr False"
proof -
  have "build_robot_parser e base_url = Inr new_parser"
    using assms by (auto simp: build_robot_parser_def read_def Let_def split: sum.splits)
  then show ?thesis by (simp add: can_fetch_def new_parser_def)
qed

theorem robots_unreachable_denies_all_witness:
  "build_robot_parser site_robots_down ''http://site.test/'' = Inr new_parser
   \<and> can_fetch site_robots_down new_parser ''*'' ''http://site.test/'' = Inr False
   \<and> crawl_site site_robots_down ''http://site.test/'' 5 (1/2) = Inr []"
proof -
  let ?p = "\<lparr>scheme = ''http'', netloc = ''site.test'', path = ''/'', params = [],
             query = [], fragment = []\<rparr>"
  have parsed: "urlparse (check_bracketed_host site_robots_down) ''http://site.test/'' = Inr ?p"
    by code_simp
  have down: "urlopen site_robots_down (scheme ?p @ ''://'' @ netloc ?p @ ''/robots.txt'')
              = TransportError"
    by (simp add: site_robots_down_def robots_down_def)
  have none: "crawl_site site_robots_down ''http://site.test/'' 5 (1/2) = Inr []"
    by code_simp
  from robots_unreachable_denies_all[OF parsed down, of "''*''" "''http://site.test/''"]
  show ?thesis using none by simp
qed

section \<open>One pass of the loop\<close>




section \<open>The crawl\<close>

text \<open>
  C7. For a bound \<open>max_pages\<close> that is not negative (the specification takes a positive
  integer), at every iteration boundary of a crawl the results are no more than the visited
  URLs, which are no more than \<open>max_pages\<close>; and the pass that follows, if there is one,
  only adds to the visited set.
\<close>

theorem visited_bounds:
  assumes "0 \<le> max_pages"
    and "after_passes e rp bd max_pages delay n (initial_state base_url) = Inr st"
  shows "int (length (results st)) \<le> int (fcard (visited st))
       \<and> int (fcard (visited st)) \<le> max_pages
       \<and> (\<forall>st'. loop_guard max_pages st \<and> crawl_step e rp bd delay st = Inr st'
             \<longrightarrow> visited st |\<subseteq>| visited st')"
proof -
  have "int (fcard (visited (initial_state base_url))) \<le> max_pages"
    using assms(1) by (simp add: initial_state_def fcard_fempty)
  from after_passes_bound[OF this assms(2)]
  have b: "int (fcard (visited st)) \<le> max_pages" .
  from after_passes_inv[OF crawl_inv_initial assms(2)] have "crawl_inv st" by simp
  from crawl_inv_length[OF this] have l: "int (length (results st)) \<le> int (fcard (visited st))"
    by simp
  have "\<forall>st'. loop_guard max_pages st \<and> crawl_step e rp bd delay st = Inr st'
             \<longrightarrow> visited st |\<subseteq>| visited st'"
    using crawl_step_visited_mono by blast
  with l b show ?thesis by blast
qed

theorem visited_bounds_witness:
  "int (length (results (projr (after_passes site open_parser ''site.test'' 5 (1/2) 2
          (initial_state ''http://site.test/'')))))
     \<le> int (fcard (visited (projr (after_passes site open_parser ''site.test'' 5 (1/2) 2
          (initial_state ''http://site.test/'')))))
   \<and> int (fcard (visited (projr (after_passes site open_parser ''site.test'' 5 (1/2) 2
          (initial_state ''http://site.test/''))))) \<le> 5
   \<and> visited (projr (after_passes site open_parser ''site.test'' 5 (1/2) 2
          (initial_state ''http://site.test/'')))
     |\<subseteq>| visited (projr (after_passes site open_parser ''site.test'' 5 (1/2) 3
          (initial_state ''http://site.test/'')))"
proof -
  let ?s = "\<lambda>n. after_passes site open_parser ''site.test'' 5 (1/2) n
                   (initial_state ''http://site.test/'')"
  have "\<not> isl (?s 2)" by code_simp
  then have s2: "?s 2 = Inr (projr (?s 2))" by simp
  have g: "loop_guard 5 (projr (?s 2))" by code_simp
  have n: "crawl_step site open_parser ''site.test'' (1/2) (projr (?s 2)) = Inr (projr (?s 3))"
    by code_simp
  have "(0::int) \<le> 5" by simp
  from visited_bounds[OF this s2] g n show ?thesis by blast
qed

text \<open>
  C8. The records that a crawl returns have pairwise distinct URLs, and no URL is requested
  twice: a URL is recorded and requested only in a pass that finds it not yet visited and
  leaves it visited.
\<close>

theorem results_distinct:
  assumes "crawl_run e base_url max_pages delay = Inr st"
  shows "crawl_site e base_url max_pages delay = Inr (results st)
       \<and> distinct (map url (results st)) \<and> distinct (fetched (trace st))"
proof -
  from assms obtain rp bd where
    "crawl_loop e rp bd max_pages delay (initial_state base_url) = Inr st"
    by (auto simp: crawl_run_def split: sum.splits)
  with crawl_loop_after_passes[of e rp bd max_pages delay "initial_state base_url"]
  obtain n where "after_passes e rp bd max_pages delay n (initial_state base_url) = Inr st"
    by auto
  from after_passes_inv[OF crawl_inv_initial this] have "crawl_inv st" by simp
  then show ?thesis using assms by (simp add: crawl_inv_def crawl_site_def)
qed

theorem results_distinct_witness:
  "crawl_site site ''http://site.test/'' 5 (1/2)
     = Inr (results (projr (crawl_run site ''http://site.test/'' 5 (1/2))))
   \<and> distinct (map url (results (projr (crawl_run site ''http://site.test/'' 5 (1/2)))))
   \<and> map url (results (projr (crawl_run site ''http://site.test/'' 5 (1/2))))
       = [''http://site.test/'', ''http://site.test/b'']"
proof -
  let ?r = "crawl_run site ''http://site.test/'' 5 (1/2)"
  have "\<not> isl ?r" by code_simp
  then have r: "?r = Inr (projr ?r)" by simp
  have u: "map url (results (projr ?r)) = [''http://site.test/'', ''http://site.test/b'']"
    by code_simp
  from results_distinct[OF r] u show ?thesis by simp
qed

text \<open>
  C9. The crawler sleeps only at the end of a pass that recorded a page: every
  \<^verbatim>\<open>continue\<close> skips the sleep. On the small site the request for \<^verbatim>\<open>/a\<close> answers 404, and the
  request for \<^verbatim>\<open>/b\<close> follows it with no sleep in between.
\<close>

theorem no_sleep_after_failed_fetch:
  "(case crawl_run site ''http://site.test/'' 5 (1/2) of Inl err \<Rightarrow> [] | Inr st \<Rightarrow> trace st)
   = [Fetch ''http://site.test/'', Sleep (1/2), Fetch ''http://site.test/a'',
      Fetch ''http://site.test/b'', Sleep (1/2)]"
  by code_simp

end
